theory Spec2Isabelle
  imports Main
begin

section \<open>Values held by a square\<close>

text \<open>
  A square of the board holds \<^verbatim>\<open>'X'\<close>, \<^verbatim>\<open>'O'\<close> or \<^verbatim>\<open>null\<close>; reading an array past its end
  gives \<^verbatim>\<open>undefined\<close>. Strings are kept as strings, so that \<^verbatim>\<open>===\<close> is equality of values and
  truthiness is the one of JavaScript: \<^verbatim>\<open>null\<close>, \<^verbatim>\<open>undefined\<close> and the empty string are falsy.
\<close>

datatype jsval = Null | Undefined | Str string

fun truthy :: "jsval \<Rightarrow> bool" where
  "truthy Null = False"
| "truthy Undefined = False"
| "truthy (Str s) = (s \<noteq> [])"

abbreviation X_mark :: jsval where
  "X_mark \<equiv> Str ''X''"

abbreviation O_mark :: jsval where
  "O_mark \<equiv> Str ''O''"

text \<open>\<^verbatim>\<open>squares[i]\<close>: an index past the end reads \<^verbatim>\<open>undefined\<close>.\<close>

definition js_get :: "jsval list \<Rightarrow> nat \<Rightarrow> jsval" where
  "js_get xs i = (if i < length xs then xs ! i else Undefined)"

text \<open>\<^verbatim>\<open>squares[i] = v\<close>: an index past the end extends the array; the holes read \<^verbatim>\<open>undefined\<close>.\<close>

definition js_set :: "jsval list \<Rightarrow> nat \<Rightarrow> jsval \<Rightarrow> jsval list" where
  "js_set xs i v =
     (if i < length xs then xs[i := v]
      else xs @ replicate (i - length xs) Undefined @ [v])"

text \<open>A template literal \<^verbatim>\<open>${v}\<close> of a value.\<close>

fun to_string :: "jsval \<Rightarrow> string" where
  "to_string Null = ''null''"
| "to_string Undefined = ''undefined''"
| "to_string (Str s) = s"

section \<open>The win calculator\<close>

text \<open>The table \<^verbatim>\<open>lines\<close> of \<^verbatim>\<open>calculateWinner\<close>, in the order of the source.\<close>

definition lines :: "(nat \<times> nat \<times> nat) list" where
  "lines =
     [(0, 1, 2), (3, 4, 5), (6, 7, 8),
      (0, 3, 6), (1, 4, 7), (2, 5, 8),
      (0, 4, 8), (2, 4, 6)]"

text \<open>The test of the loop body:
  \<^verbatim>\<open>squares[a] && squares[a] === squares[b] && squares[a] === squares[c]\<close>.\<close>

fun line_wins :: "jsval list \<Rightarrow> nat \<times> nat \<times> nat \<Rightarrow> bool" where
  "line_wins sq (a, b, c) =
     (truthy (js_get sq a) \<and> js_get sq a = js_get sq b \<and> js_get sq a = js_get sq c)"

text \<open>The \<^verbatim>\<open>for\<close> loop over the table: the first line that passes the test returns
  \<^verbatim>\<open>squares[a]\<close>; when the table is exhausted the result is \<^verbatim>\<open>null\<close>.\<close>

fun winner_loop :: "(nat \<times> nat \<times> nat) list \<Rightarrow> jsval list \<Rightarrow> jsval" where
  "winner_loop [] sq = Null"
| "winner_loop (l # ls) sq =
     (if line_wins sq l then js_get sq (fst l) else winner_loop ls sq)"

definition calculateWinner :: "jsval list \<Rightarrow> jsval" where
  "calculateWinner sq = winner_loop lines sq"

section \<open>The store and the state of the Game component\<close>

text \<open>
  Arrays of squares are objects: \<^verbatim>\<open>slice()\<close> allocates a new one and \<^verbatim>\<open>squares[i] = v\<close>
  writes into one in place. The store holds every array of squares allocated so far; an
  address is an index into it. A history entry \<^verbatim>\<open>{ squares : ... }\<close> holds the address of its
  array. The history arrays themselves and the entry objects are never written in place
  (\<^verbatim>\<open>slice\<close> and \<^verbatim>\<open>concat\<close> build new arrays, \<^verbatim>\<open>setState\<close> replaces the fields), so they are
  kept as values.
\<close>

type_synonym addr = nat

type_synonym store = "jsval list list"

definition deref :: "store \<Rightarrow> addr \<Rightarrow> jsval list option" where
  "deref h a = (if a < length h then Some (h ! a) else None)"

record entry =
  squares :: addr

record state =
  history :: "entry list"
  stepNumber :: nat
  xIsNext :: bool

type_synonym game = "store \<times> state"

text \<open>
  \<^verbatim>\<open>TypeError\<close> is what reading \<^verbatim>\<open>.squares\<close> of \<^verbatim>\<open>undefined\<close> throws. \<^verbatim>\<open>Dangling\<close> does not
  exist in JavaScript, where every reference points to an object: it is the answer of the
  model on a state whose entry holds an address that was never allocated.
\<close>

datatype error = TypeError | Dangling

text \<open>The constructor: one entry, whose array is \<^verbatim>\<open>Array(9).fill(null)\<close>, step 0, X to move.\<close>

definition initial :: game where
  "initial =
     ([replicate 9 Null],
      \<lparr>history = [\<lparr>squares = 0\<rparr>], stepNumber = 0, xIsNext = True\<rparr>)"

text \<open>
  \<^verbatim>\<open>handleClick(i)\<close>. The copy made by \<^verbatim>\<open>current.squares.slice()\<close> is allocated at the next
  free address before the test, as in the source; when the click is ignored the copy stays
  in the store, referenced by nothing.
\<close>

definition handleClick :: "game \<Rightarrow> nat \<Rightarrow> error + game" where
  "handleClick g i =
     (let h = fst g; s = snd g;
          hist = take (stepNumber s + 1) (history s)
      in if hist = [] then Inl TypeError
         else
           let current = hist ! (length hist - 1)
           in case deref h (squares current) of
                None \<Rightarrow> Inl Dangling
              | Some cur \<Rightarrow>
                  let sq = length h; h1 = h @ [cur]
                  in if truthy (calculateWinner (h1 ! sq)) \<or> truthy (js_get (h1 ! sq) i)
                     then Inr (h1, s)
                     else Inr (h1[sq := js_set (h1 ! sq) i (if xIsNext s then X_mark else O_mark)],
                               \<lparr>history = hist @ [\<lparr>squares = sq\<rparr>],
                                stepNumber = length hist,
                                xIsNext = (\<not> xIsNext s)\<rparr>))"

text \<open>\<^verbatim>\<open>jumpTo(step)\<close>: \<^verbatim>\<open>setState\<close> replaces the two fields and keeps the history.\<close>

definition jumpTo :: "game \<Rightarrow> nat \<Rightarrow> game" where
  "jumpTo g step = (fst g, (snd g)\<lparr>stepNumber := step, xIsNext := (step mod 2 = 0)\<rparr>)"

section \<open>Rendering: the status line and the move list\<close>

text \<open>
  The decimal text of a number, as a template literal prints the index that \<^verbatim>\<open>map\<close> passes to
  its callback. (An array index is below \<open>2^32\<close>, far from the size at which the text of a
  number switches to exponent notation.)
\<close>

definition digit :: "nat \<Rightarrow> char" where
  "digit d = ''0123456789'' ! d"

function show_nat :: "nat \<Rightarrow> string" where
  "show_nat n =
     (if n < 10 then [digit n]
      else show_nat (n div 10) @ [digit (n mod 10)])"
  by pat_completeness auto
termination
  by (relation "measure id") auto

declare show_nat.simps [simp del]

record move_item =
  key :: nat
  desc :: string
  onClick :: "game \<Rightarrow> game"

record view =
  status :: string
  board :: addr
  moves :: "move_item list"

text \<open>One \<^verbatim>\<open><li>\<close> of the move list, the body of the callback given to \<^verbatim>\<open>history.map\<close>.\<close>

definition move_entry :: "nat \<Rightarrow> move_item" where
  "move_entry move =
     \<lparr>key = move,
      desc = (if move \<noteq> 0 then ''Go to move # '' @ show_nat move else ''Go to game start''),
      onClick = (\<lambda>g. jumpTo g move)\<rparr>"

definition render :: "game \<Rightarrow> error + view" where
  "render g =
     (let h = fst g; s = snd g
      in if stepNumber s < length (history s) then
           let current = history s ! stepNumber s
           in case deref h (squares current) of
                None \<Rightarrow> Inl Dangling
              | Some cur \<Rightarrow>
                  let winner = calculateWinner cur
                  in Inr \<lparr>status =
                            (if truthy winner then ''Winner: '' @ to_string winner
                             else ''Next player: '' @ (if xIsNext s then ''X'' else ''O'')),
                          board = squares current,
                          moves = map move_entry [0 ..< length (history s)]\<rparr>
         else Inl TypeError)"

section \<open>Reachable states\<close>

text \<open>
  The component starts in \<^verbatim>\<open>initial\<close>. The Board renders the squares 0 to 8 and nothing
  else, so a click carries an index below 9; the move list offers one button per history
  entry, so a jump carries an index into the history.
\<close>

inductive reachable :: "game \<Rightarrow> bool" where
  start: "reachable initial"
| click: "reachable g \<Longrightarrow> i < 9 \<Longrightarrow> handleClick g i = Inr g' \<Longrightarrow> reachable g'"
| jump: "reachable g \<Longrightarrow> step < length (history (snd g)) \<Longrightarrow> reachable (jumpTo g step)"

section \<open>Vocabulary of the properties\<close>

text \<open>A mark is X or O; a board is nine cells, each empty (\<^verbatim>\<open>null\<close>) or a mark.\<close>

definition is_mark :: "jsval \<Rightarrow> bool" where
  "is_mark c = (c = X_mark \<or> c = O_mark)"

definition is_board :: "jsval list \<Rightarrow> bool" where
  "is_board b = (length b = 9 \<and> list_all (\<lambda>c. c = Null \<or> is_mark c) b)"

text \<open>A line of three cells is full when the three hold the same mark.\<close>

fun full_line :: "jsval list \<Rightarrow> nat \<times> nat \<times> nat \<Rightarrow> bool" where
  "full_line b (x, y, z) = (is_mark (b ! x) \<and> b ! x = b ! y \<and> b ! x = b ! z)"

text \<open>The board stored by the history entry at index \<open>k\<close>, and the one at the step pointer.\<close>

definition board_at :: "game \<Rightarrow> nat \<Rightarrow> jsval list" where
  "board_at g k = fst g ! squares (history (snd g) ! k)"

definition current_board :: "game \<Rightarrow> jsval list" where
  "current_board g = board_at g (stepNumber (snd g))"

text \<open>
  What holds of every reachable state: the step pointer is an index into the history,
  the stored flag agrees with the parity of the pointer, and every entry holds the address
  of an allocated array that is a board.
\<close>

definition well_formed :: "game \<Rightarrow> bool" where
  "well_formed g =
     (stepNumber (snd g) < length (history (snd g)) \<and>
      xIsNext (snd g) = even (stepNumber (snd g)) \<and>
      list_all (\<lambda>e. squares e < length (fst g) \<and> is_board (fst g ! squares e))
        (history (snd g)))"

text \<open>A run of clicks, stopping at the first error.\<close>

fun play :: "game \<Rightarrow> nat list \<Rightarrow> error + game" where
  "play g [] = Inr g"
| "play g (i # is) = (case handleClick g i of Inl e \<Rightarrow> Inl e | Inr g' \<Rightarrow> play g' is)"

text \<open>A full board without a full line: X O X / X O O / O X X.\<close>

definition draw_board :: "jsval list" where
  "draw_board =
     [X_mark, O_mark, X_mark,
      X_mark, O_mark, O_mark,
      O_mark, X_mark, X_mark]"

text \<open>A board with two full lines of different marks: X X X / O O O / _ _ _.\<close>

definition two_rows_board :: "jsval list" where
  "two_rows_board =
     [X_mark, X_mark, X_mark,
      O_mark, O_mark, O_mark,
      Null, Null, Null]"

text \<open>
  The game after the clicks 0, 1, 3, 4, 6 on a fresh game: X holds the left column
  (cells 0, 3, 6) and O the cells 1 and 4.
\<close>

definition won_game :: game where
  "won_game =
     ([[Null, Null, Null, Null, Null, Null, Null, Null, Null],
       [X_mark, Null, Null, Null, Null, Null, Null, Null, Null],
       [X_mark, O_mark, Null, Null, Null, Null, Null, Null, Null],
       [X_mark, O_mark, Null, X_mark, Null, Null, Null, Null, Null],
       [X_mark, O_mark, Null, X_mark, O_mark, Null, Null, Null, Null],
       [X_mark, O_mark, Null, X_mark, O_mark, Null, X_mark, Null, Null]],
      \<lparr>history = [\<lparr>squares = 0\<rparr>, \<lparr>squares = 1\<rparr>, \<lparr>squares = 2\<rparr>,
                  \<lparr>squares = 3\<rparr>, \<lparr>squares = 4\<rparr>, \<lparr>squares = 5\<rparr>],
       stepNumber = 5, xIsNext = False\<rparr>)"

text \<open>The game after one click on cell 0, and the game after the clicks 0, 1, 2.\<close>

definition one_move :: game where
  "one_move =
     ([[Null, Null, Null, Null, Null, Null, Null, Null, Null],
       [X_mark, Null, Null, Null, Null, Null, Null, Null, Null]],
      \<lparr>history = [\<lparr>squares = 0\<rparr>, \<lparr>squares = 1\<rparr>], stepNumber = 1, xIsNext = False\<rparr>)"

definition three_moves :: game where
  "three_moves =
     ([[Null, Null, Null, Null, Null, Null, Null, Null, Null],
       [X_mark, Null, Null, Null, Null, Null, Null, Null, Null],
       [X_mark, O_mark, Null, Null, Null, Null, Null, Null, Null],
       [X_mark, O_mark, X_mark, Null, Null, Null, Null, Null, Null]],
      \<lparr>history = [\<lparr>squares = 0\<rparr>, \<lparr>squares = 1\<rparr>, \<lparr>squares = 2\<rparr>, \<lparr>squares = 3\<rparr>],
       stepNumber = 3, xIsNext = False\<rparr>)"

section \<open>The win calculator returns the mark of the first full line\<close>

lemma winner_loop_find:
  "winner_loop ls sq =
     (case find (line_wins sq) ls of None \<Rightarrow> Null | Some l \<Rightarrow> js_get sq (fst l))"
  by (induction ls) simp_all

lemma lines_in_range:
  "l \<in> set lines \<Longrightarrow> fst l < 9 \<and> fst (snd l) < 9 \<and> snd (snd l) < 9"
  by (auto simp: lines_def)

lemma board_cell:
  "is_board b \<Longrightarrow> n < 9 \<Longrightarrow> b ! n = Null \<or> is_mark (b ! n)"
  by (simp add: is_board_def list_all_length)

lemma truthy_board_cell:
  "is_board b \<Longrightarrow> n < 9 \<Longrightarrow> truthy (b ! n) = is_mark (b ! n)"
  using board_cell [of b n] by (auto simp: is_mark_def)

lemma line_wins_full_line:
  assumes "is_board b" and "l \<in> set lines"
  shows "line_wins b l = full_line b l"
proof -
  obtain x y z where l: "l = (x, y, z)" by (cases l) auto
  from lines_in_range [OF assms(2)] l have "x < 9" "y < 9" "z < 9" by auto
  moreover from assms(1) have "length b = 9" by (simp add: is_board_def)
  ultimately show ?thesis
    using truthy_board_cell [OF assms(1), of x] by (simp add: l js_get_def)
qed

lemma calculateWinner_first:
  assumes "is_board b" and "k < length lines" and "full_line b (lines ! k)"
    and "\<And>j. j < k \<Longrightarrow> \<not> full_line b (lines ! j)"
  shows "calculateWinner b = b ! fst (lines ! k)"
proof -
  have "find (line_wins b) lines = Some (lines ! k)"
    unfolding find_Some_iff
    using assms line_wins_full_line [OF assms(1)]
    by (metis nth_mem order.strict_trans)
  moreover have "fst (lines ! k) < length b"
    using lines_in_range [of "lines ! k"] assms(1,2) by (simp add: is_board_def)
  ultimately show ?thesis
    by (simp add: calculateWinner_def winner_loop_find js_get_def)
qed

lemma calculateWinner_none:
  assumes "is_board b" and "\<And>l. l \<in> set lines \<Longrightarrow> \<not> full_line b l"
  shows "calculateWinner b = Null"
proof -
  have "find (line_wins b) lines = None"
    using assms line_wins_full_line [OF assms(1)]
    by (auto simp add: find_None_iff simp del: line_wins.simps full_line.simps)
  then show ?thesis by (simp add: calculateWinner_def winner_loop_find)
qed

lemma first_full_line:
  assumes "l \<in> set lines" and "full_line b l"
  shows "\<exists>k<length lines. full_line b (lines ! k) \<and> (\<forall>j<k. \<not> full_line b (lines ! j))"
proof -
  define k where "k = (LEAST n. n < length lines \<and> full_line b (lines ! n))"
  from assms obtain n where n: "n < length lines \<and> full_line b (lines ! n)"
    by (auto simp: in_set_conv_nth)
  then have k: "k < length lines \<and> full_line b (lines ! k)"
    unfolding k_def by (rule LeastI)
  moreover have "\<not> full_line b (lines ! j)" if "j < k" for j
  proof
    assume "full_line b (lines ! j)"
    moreover from that k have "j < length lines" by simp
    ultimately have "k \<le> j" unfolding k_def by (intro Least_le) simp
    with that show False by simp
  qed
  ultimately show ?thesis by blast
qed

lemma calculateWinner_result:
  assumes "is_board b"
  shows "calculateWinner b = Null \<or> is_mark (calculateWinner b)"
proof (cases "\<exists>l\<in>set lines. full_line b l")
  case False
  with calculateWinner_none [OF assms] show ?thesis by blast
next
  case True
  then obtain l where "l \<in> set lines" "full_line b l" by blast
  from first_full_line [OF this] obtain k where k: "k < length lines"
    "full_line b (lines ! k)" "\<forall>j<k. \<not> full_line b (lines ! j)" by blast
  then have "calculateWinner b = b ! fst (lines ! k)"
    using calculateWinner_first [OF assms] by blast
  moreover from k(2) have "is_mark (b ! fst (lines ! k))"
    by (cases "lines ! k") auto
  ultimately show ?thesis by simp
qed

lemma is_board_two_rows: "is_board two_rows_board"
  by (simp add: is_board_def two_rows_board_def is_mark_def)

lemma is_board_draw: "is_board draw_board"
  by (simp add: is_board_def draw_board_def is_mark_def)

text \<open>
  C1. On a board that has a full line (a row, a column or a diagonal of three equal marks),
  \<^verbatim>\<open>calculateWinner\<close> returns the mark of the first full line in the order of the table, which
  is rows, columns, diagonals as listed; when every full line carries the same mark, that
  mark is the result.
\<close>

theorem calculateWinner_first_full_line:
  assumes "is_board b" and "l \<in> set lines" and "full_line b l"
  shows "lines = [(0, 1, 2), (3, 4, 5), (6, 7, 8), (0, 3, 6), (1, 4, 7), (2, 5, 8),
                  (0, 4, 8), (2, 4, 6)]
       \<and> (\<exists>k<length lines. full_line b (lines ! k)
             \<and> (\<forall>j<k. \<not> full_line b (lines ! j))
             \<and> calculateWinner b = b ! fst (lines ! k))
       \<and> is_mark (calculateWinner b)
       \<and> ((\<forall>l'\<in>set lines. full_line b l' \<longrightarrow> b ! fst l' = b ! fst l)
            \<longrightarrow> calculateWinner b = b ! fst l)"
proof -
  from first_full_line [OF assms(2,3)] obtain k where k: "k < length lines"
    "full_line b (lines ! k)" "\<forall>j<k. \<not> full_line b (lines ! j)" by blast
  then have w: "calculateWinner b = b ! fst (lines ! k)"
    using calculateWinner_first [OF assms(1)] by blast
  from k(2) have "is_mark (b ! fst (lines ! k))"
    by (cases "lines ! k") auto
  with w have m: "is_mark (calculateWinner b)" by simp
  have "calculateWinner b = b ! fst l"
    if "\<forall>l'\<in>set lines. full_line b l' \<longrightarrow> b ! fst l' = b ! fst l"
    using that k(1,2) w by (metis nth_mem)
  with k w m show ?thesis by (auto simp: lines_def)
qed

theorem calculateWinner_first_full_line_witness:
  "is_board two_rows_board
     \<and> (3, 4, 5) \<in> set lines
     \<and> full_line two_rows_board (3, 4, 5)
     \<and> full_line two_rows_board (0, 1, 2)
     \<and> is_mark (calculateWinner two_rows_board)
     \<and> calculateWinner two_rows_board = X_mark"
proof -
  have l: "(3, 4, 5) \<in> set lines" by (simp add: lines_def)
  have f: "full_line two_rows_board (3, 4, 5)"
    by (simp add: two_rows_board_def is_mark_def)
  have "is_mark (calculateWinner two_rows_board)"
    using calculateWinner_first_full_line [OF is_board_two_rows l f] by blast
  moreover have "calculateWinner two_rows_board = X_mark"
    by (simp add: calculateWinner_def lines_def two_rows_board_def js_get_def)
  moreover have "full_line two_rows_board (0, 1, 2)"
    by (simp add: two_rows_board_def is_mark_def)
  ultimately show ?thesis using is_board_two_rows l f by blast
qed

text \<open>
  C2. On a board without a full line \<^verbatim>\<open>calculateWinner\<close> returns \<^verbatim>\<open>null\<close>: so on the empty
  board, and so on a full board without a full line. The result is \<^verbatim>\<open>null\<close> or a mark on
  every board; a draw has no result of its own.
\<close>

theorem calculateWinner_no_full_line:
  assumes "is_board b"
  shows "((\<forall>l\<in>set lines. \<not> full_line b l) \<longrightarrow> calculateWinner b = Null)
       \<and> (calculateWinner b = Null \<or> calculateWinner b = X_mark \<or> calculateWinner b = O_mark)
       \<and> calculateWinner (replicate 9 Null) = Null
       \<and> calculateWinner draw_board = Null
       \<and> Null \<notin> set draw_board"
proof -
  have "calculateWinner (replicate 9 Null) = Null"
    by (simp add: calculateWinner_def lines_def js_get_def)
  moreover have "calculateWinner draw_board = Null"
    by (simp add: calculateWinner_def lines_def draw_board_def js_get_def)
  moreover have "Null \<notin> set draw_board"
    by (simp add: draw_board_def)
  ultimately show ?thesis
    using calculateWinner_none [OF assms] calculateWinner_result [OF assms]
    by (auto simp: is_mark_def)
qed

theorem calculateWinner_no_full_line_witness:
  "is_board draw_board
     \<and> list_all (\<lambda>l. \<not> full_line draw_board l) lines
     \<and> calculateWinner draw_board = Null"
proof -
  have n: "list_all (\<lambda>l. \<not> full_line draw_board l) lines"
    by (simp add: lines_def draw_board_def is_mark_def)
  then have "\<forall>l\<in>set lines. \<not> full_line draw_board l"
    by (simp add: list_all_iff)
  with calculateWinner_no_full_line [OF is_board_draw]
  have "calculateWinner draw_board = Null" by blast
  with n is_board_draw show ?thesis by blast
qed

text \<open>
  C3. On the board X O X / X O _ / O _ X the middle column holds O, O and an empty cell,
  and no line is full: \<^verbatim>\<open>calculateWinner\<close> returns \<^verbatim>\<open>null\<close>. With an O in cell 7 as well,
  the middle column is full and the result is O.
\<close>

theorem calculateWinner_scenario3:
  "calculateWinner
     [X_mark, O_mark, X_mark,
      X_mark, O_mark, Null,
      O_mark, Null, X_mark] = Null
   \<and> calculateWinner
     [X_mark, O_mark, X_mark,
      X_mark, O_mark, Null,
      O_mark, O_mark, X_mark] = O_mark"
  by (simp add: calculateWinner_def lines_def js_get_def)

text \<open>The result on the first of the two boards is not O.\<close>

theorem calculateWinner_scenario3_not_O:
  "calculateWinner
     [X_mark, O_mark, X_mark,
      X_mark, O_mark, Null,
      O_mark, Null, X_mark] \<noteq> O_mark"
  by (simp add: calculateWinner_def lines_def js_get_def)

section \<open>What every reachable state satisfies\<close>

lemma take_Suc_last:
  assumes "n < length xs"
  shows "take (n + 1) xs \<noteq> []"
    and "length (take (n + 1) xs) = n + 1"
    and "take (n + 1) xs ! (length (take (n + 1) xs) - 1) = xs ! n"
  using assms by auto

lemma handleClick_eq:
  assumes "stepNumber s < length (history s)"
    and "squares (history s ! stepNumber s) < length h"
  shows "handleClick (h, s) i =
     (let cur = h ! squares (history s ! stepNumber s)
      in if truthy (calculateWinner cur) \<or> truthy (js_get cur i) then Inr (h @ [cur], s)
         else Inr (h @ [js_set cur i (if xIsNext s then X_mark else O_mark)],
                   \<lparr>history = take (stepNumber s + 1) (history s) @ [\<lparr>squares = length h\<rparr>],
                    stepNumber = stepNumber s + 1,
                    xIsNext = (\<not> xIsNext s)\<rparr>))"
  using take_Suc_last [OF assms(1)] assms(2)
  by (simp add: handleClick_def Let_def deref_def)

lemma well_formed_current:
  assumes "well_formed g"
  shows "stepNumber (snd g) < length (history (snd g))"
    and "squares (history (snd g) ! stepNumber (snd g)) < length (fst g)"
    and "is_board (current_board g)"
    and "xIsNext (snd g) = even (stepNumber (snd g))"
  using assms by (auto simp: well_formed_def list_all_length current_board_def board_at_def)

lemma well_formed_entry:
  assumes "well_formed g" and "k < length (history (snd g))"
  shows "squares (history (snd g) ! k) < length (fst g)" and "is_board (board_at g k)"
  using assms by (auto simp: well_formed_def list_all_length board_at_def)

lemma is_board_js_set:
  assumes "is_board b" and "i < 9" and "is_mark v"
  shows "is_board (js_set b i v)"
  using assms by (auto simp: is_board_def js_set_def list_all_iff dest: set_update_subset_insert [THEN subsetD])


lemma handleClick_ignored:
  assumes "well_formed g"
    and "truthy (calculateWinner (current_board g)) \<or> truthy (js_get (current_board g) i)"
  shows "handleClick g i = Inr (fst g @ [current_board g], snd g)"
proof -
  obtain h s where g: "g = (h, s)" by (cases g)
  from well_formed_current [OF assms(1)] assms(2) show ?thesis
    by (simp add: g handleClick_eq current_board_def board_at_def)
qed

lemma handleClick_applied:
  assumes "well_formed g"
    and "\<not> truthy (calculateWinner (current_board g))"
    and "\<not> truthy (js_get (current_board g) i)"
  shows "handleClick g i =
     Inr (fst g @ [js_set (current_board g) i
                     (if even (stepNumber (snd g)) then X_mark else O_mark)],
          \<lparr>history = take (stepNumber (snd g) + 1) (history (snd g))
                       @ [\<lparr>squares = length (fst g)\<rparr>],
           stepNumber = stepNumber (snd g) + 1,
           xIsNext = odd (stepNumber (snd g))\<rparr>)"
proof -
  obtain h s where g: "g = (h, s)" by (cases g)
  from well_formed_current [OF assms(1)] assms(2,3) show ?thesis
    by (simp add: g handleClick_eq current_board_def board_at_def)
qed

lemma well_formed_extend:
  assumes "list_all (\<lambda>e. squares e < length h \<and> is_board (h ! squares e)) es"
  shows "list_all (\<lambda>e. squares e < length (h @ [b]) \<and> is_board ((h @ [b]) ! squares e)) es"
  using assms by (auto simp: list_all_iff nth_append)

lemma well_formed_handleClick:
  assumes "well_formed g" and "i < 9" and "handleClick g i = Inr g'"
  shows "well_formed g'"
proof (cases "truthy (calculateWinner (current_board g)) \<or> truthy (js_get (current_board g) i)")
  case True
  from handleClick_ignored [OF assms(1) True] assms(3)
  have g': "g' = (fst g @ [current_board g], snd g)" by simp
  from assms(1) show ?thesis
    unfolding g' well_formed_def using well_formed_extend by auto
next
  case False
  let ?v = "if even (stepNumber (snd g)) then X_mark else O_mark"
  let ?b = "js_set (current_board g) i ?v"
  from False handleClick_applied [OF assms(1), of i] assms(3)
  have g': "g' = (fst g @ [?b],
          \<lparr>history = take (stepNumber (snd g) + 1) (history (snd g))
                       @ [\<lparr>squares = length (fst g)\<rparr>],
           stepNumber = stepNumber (snd g) + 1,
           xIsNext = odd (stepNumber (snd g))\<rparr>)" by simp
  have b: "is_board ?b"
    using well_formed_current(3) [OF assms(1)] assms(2)
    by (intro is_board_js_set) (simp_all add: is_mark_def)
  from assms(1) have "list_all (\<lambda>e. squares e < length (fst g) \<and> is_board (fst g ! squares e))
      (take (stepNumber (snd g) + 1) (history (snd g)))"
    by (auto simp: well_formed_def list_all_iff dest: in_set_takeD)
  then have "list_all (\<lambda>e. squares e < length (fst g @ [?b]) \<and> is_board ((fst g @ [?b]) ! squares e))
      (take (stepNumber (snd g) + 1) (history (snd g)))"
    by (rule well_formed_extend)
  with b well_formed_current(1) [OF assms(1)] show ?thesis
    unfolding g' well_formed_def by simp
qed

lemma well_formed_jumpTo:
  assumes "well_formed g" and "k < length (history (snd g))"
  shows "well_formed (jumpTo g k)"
  using assms by (auto simp: well_formed_def jumpTo_def)

lemma well_formed_initial: "well_formed initial"
  by (simp add: well_formed_def initial_def is_board_def list_all_iff)

lemma reachable_well_formed: "reachable g \<Longrightarrow> well_formed g"
proof (induction rule: reachable.induct)
  case start
  show ?case by (rule well_formed_initial)
next
  case (click g i g')
  then show ?case by (blast intro: well_formed_handleClick)
next
  case (jump g step)
  then show ?case by (blast intro: well_formed_jumpTo)
qed

lemma reachable_play:
  assumes "reachable g" and "list_all (\<lambda>i. i < 9) js" and "play g js = Inr g'"
  shows "reachable g'"
  using assms
proof (induction js arbitrary: g)
  case Nil
  then show ?case by simp
next
  case (Cons i js)
  from Cons.prems(3) obtain g1 where g1: "handleClick g i = Inr g1" "play g1 js = Inr g'"
    by (auto split: sum.splits)
  from Cons.prems(1,2) g1(1) have "reachable g1" by (auto intro: reachable.click)
  with Cons.IH g1(2) Cons.prems(2) show ?case by simp
qed

section \<open>Scenario states are reachable\<close>

lemma replicate_9: "replicate 9 x = [x, x, x, x, x, x, x, x, x]"
  by (simp add: eval_nat_numeral)

lemma play_won_game: "play initial [0, 1, 3, 4, 6] = Inr won_game"
  by (simp add: handleClick_def initial_def won_game_def deref_def Let_def
      calculateWinner_def lines_def js_get_def js_set_def replicate_9)

lemma reachable_won_game: "reachable won_game"
  by (rule reachable_play [OF reachable.start _ play_won_game]) simp

lemma play_one_move: "play initial [0] = Inr one_move"
  by (simp add: handleClick_def initial_def one_move_def deref_def Let_def
      calculateWinner_def lines_def js_get_def js_set_def replicate_9)

lemma reachable_one_move: "reachable one_move"
  by (rule reachable_play [OF reachable.start _ play_one_move]) simp

lemma play_three_moves: "play initial [0, 1, 2] = Inr three_moves"
  by (simp add: handleClick_def initial_def three_moves_def deref_def Let_def
      calculateWinner_def lines_def js_get_def js_set_def replicate_9)

lemma reachable_three_moves: "reachable three_moves"
  by (rule reachable_play [OF reachable.start _ play_three_moves]) simp

section \<open>Ignored and accepted clicks\<close>

text \<open>
  On a board the two tests of the guard of \<^verbatim>\<open>handleClick\<close> read as the prose has them: the
  winner is truthy when it is not \<^verbatim>\<open>null\<close>, and cell \<open>i\<close> is truthy when it is a cell of the
  board that is not empty.
\<close>

lemma truthy_winner:
  assumes "is_board b"
  shows "truthy (calculateWinner b) = (calculateWinner b \<noteq> Null)"
  using calculateWinner_result [OF assms] by (auto simp: is_mark_def)

lemma truthy_cell:
  assumes "is_board b"
  shows "truthy (js_get b i) = (i < 9 \<and> b ! i \<noteq> Null)"
proof (cases "i < 9")
  case True
  with assms truthy_board_cell [OF assms True] board_cell [OF assms True] show ?thesis
    by (auto simp: js_get_def is_board_def is_mark_def)
next
  case False
  with assms show ?thesis by (simp add: js_get_def is_board_def)
qed

lemma handleClick_changed:
  assumes "well_formed g" and "handleClick g i = Inr g'" and "snd g' \<noteq> snd g"
  shows "\<not> truthy (calculateWinner (current_board g))"
    and "\<not> truthy (js_get (current_board g) i)"
  using handleClick_ignored [OF assms(1), of i] assms(2,3) by auto

lemma handleClick_accepted:
  assumes "well_formed g" and "handleClick g i = Inr g'" and "snd g' \<noteq> snd g"
  shows "g' =
     (fst g @ [js_set (current_board g) i
                 (if even (stepNumber (snd g)) then X_mark else O_mark)],
      \<lparr>history = take (stepNumber (snd g) + 1) (history (snd g))
                   @ [\<lparr>squares = length (fst g)\<rparr>],
       stepNumber = stepNumber (snd g) + 1,
       xIsNext = odd (stepNumber (snd g))\<rparr>)"
  using handleClick_applied [OF assms(1) handleClick_changed [OF assms]] assms(2) by simp

lemma entries_allocated:
  assumes "well_formed g" and "e \<in> set (history (snd g))"
  shows "squares e < length (fst g)"
  using assms by (auto simp: well_formed_def list_all_iff)

lemma render_returns:
  assumes "well_formed g"
  shows "\<exists>v. render g = Inr v"
  using well_formed_current(1,2) [OF assms] by (simp add: render_def Let_def deref_def)

lemma render_moves:
  assumes "render g = Inr v"
  shows "moves v = map move_entry [0 ..< length (history (snd g))]"
  using assms by (auto simp: render_def Let_def split: if_splits option.splits)

section \<open>The claims about the Game component\<close>

text \<open>
  C4. In a reachable state, a click while the board at the step pointer has a winner, or on
  a cell of that board that is occupied, changes nothing and raises nothing: the call
  returns normally with the same history, step pointer and turn flag, and every stored
  board reads as before. (The store only gains the copy that \<^verbatim>\<open>slice()\<close> made, which no
  entry refers to.)
\<close>

theorem handleClick_ignored_is_noop:
  assumes "reachable g"
    and "calculateWinner (current_board g) \<noteq> Null \<or> (i < 9 \<and> current_board g ! i \<noteq> Null)"
  shows "\<exists>g'. handleClick g i = Inr g'
            \<and> snd g' = snd g
            \<and> history (snd g') = history (snd g)
            \<and> stepNumber (snd g') = stepNumber (snd g)
            \<and> xIsNext (snd g') = xIsNext (snd g)
            \<and> (\<forall>k<length (history (snd g)). board_at g' k = board_at g k)"
proof -
  from assms(1) have wf: "well_formed g" by (rule reachable_well_formed)
  have b: "is_board (current_board g)" by (rule well_formed_current(3) [OF wf])
  from assms(2) have "truthy (calculateWinner (current_board g)) \<or> truthy (js_get (current_board g) i)"
    by (simp add: truthy_winner [OF b] truthy_cell [OF b])
  then have eq: "handleClick g i = Inr (fst g @ [current_board g], snd g)"
    by (rule handleClick_ignored [OF wf])
  have "board_at (fst g @ [current_board g], snd g) k = board_at g k"
    if "k < length (history (snd g))" for k
    using well_formed_entry(1) [OF wf that] by (simp add: board_at_def nth_append)
  with eq show ?thesis by simp
qed

theorem handleClick_ignored_is_noop_witness:
  "reachable won_game
     \<and> calculateWinner (current_board won_game) = X_mark
     \<and> (\<exists>g'. handleClick won_game 8 = Inr g' \<and> snd g' = snd won_game)
     \<and> handleClick won_game 8 = Inr (fst won_game @ [current_board won_game], snd won_game)
     \<and> reachable one_move
     \<and> current_board one_move ! 0 = X_mark
     \<and> (\<exists>g'. handleClick one_move 0 = Inr g' \<and> snd g' = snd one_move)
     \<and> handleClick one_move 0 = Inr (fst one_move @ [current_board one_move], snd one_move)"
proof -
  have w: "calculateWinner (current_board won_game) = X_mark"
    by (simp add: current_board_def board_at_def won_game_def calculateWinner_def lines_def
        js_get_def)
  then have "calculateWinner (current_board won_game) \<noteq> Null \<or>
      (8 < (9::nat) \<and> current_board won_game ! 8 \<noteq> Null)" by simp
  from handleClick_ignored_is_noop [OF reachable_won_game this]
  have a: "\<exists>g'. handleClick won_game 8 = Inr g' \<and> snd g' = snd won_game" by blast
  have a': "handleClick won_game 8 = Inr (fst won_game @ [current_board won_game], snd won_game)"
    by (simp add: handleClick_def current_board_def board_at_def won_game_def deref_def Let_def
        calculateWinner_def lines_def js_get_def)
  have c: "current_board one_move ! 0 = X_mark"
    by (simp add: current_board_def board_at_def one_move_def)
  then have "calculateWinner (current_board one_move) \<noteq> Null \<or>
      (0 < (9::nat) \<and> current_board one_move ! 0 \<noteq> Null)" by simp
  from handleClick_ignored_is_noop [OF reachable_one_move this]
  have b: "\<exists>g'. handleClick one_move 0 = Inr g' \<and> snd g' = snd one_move" by blast
  have b': "handleClick one_move 0 = Inr (fst one_move @ [current_board one_move], snd one_move)"
    by (simp add: handleClick_def current_board_def board_at_def one_move_def deref_def Let_def
        calculateWinner_def lines_def js_get_def)
  from w a a' c b b' reachable_won_game reachable_one_move show ?thesis by blast
qed

text \<open>
  C5. In a reachable state with a history of length \<open>L\<close>, after \<^verbatim>\<open>jumpTo(k)\<close> with \<open>k < L - 1\<close>
  and one accepted click (one that changed the state), the history has length \<open>k + 2\<close>: its
  first \<open>k + 1\<close> entries are the entries it had before the jump, with the same boards, the
  entries that stood beyond index \<open>k\<close> are replaced by one new entry that is none of the old
  ones, and the step pointer is \<open>k + 1\<close>, the index of the new entry.
\<close>

theorem handleClick_after_jump_truncates:
  assumes "reachable g" and "k + 1 < length (history (snd g))"
    and "handleClick (jumpTo g k) i = Inr g'" and "snd g' \<noteq> snd (jumpTo g k)"
  shows "length (history (snd g')) = k + 2
     \<and> take (k + 1) (history (snd g')) = take (k + 1) (history (snd g))
     \<and> history (snd g') = take (k + 1) (history (snd g)) @ [\<lparr>squares = length (fst g)\<rparr>]
     \<and> \<lparr>squares = length (fst g)\<rparr> \<notin> set (history (snd g))
     \<and> stepNumber (snd g') = k + 1
     \<and> (\<forall>j\<le>k. board_at g' j = board_at g j)"
proof -
  from assms(2) have k: "k < length (history (snd g))" by simp
  from assms(1) have wf0: "well_formed g" by (rule reachable_well_formed)
  then have wf: "well_formed (jumpTo g k)" using k by (rule well_formed_jumpTo)
  have j: "fst (jumpTo g k) = fst g" "history (snd (jumpTo g k)) = history (snd g)"
    "stepNumber (snd (jumpTo g k)) = k"
    by (simp_all add: jumpTo_def)
  note g' = handleClick_accepted [OF wf assms(3,4), unfolded j]
  have fresh: "\<lparr>squares = length (fst g)\<rparr> \<notin> set (history (snd g))"
    using entries_allocated [OF wf0, of "\<lparr>squares = length (fst g)\<rparr>"] by auto
  have "board_at g' n = board_at g n" if "n \<le> k" for n
  proof -
    from that k have n: "n < length (history (snd g))" by simp
    from that k have "history (snd g') ! n = history (snd g) ! n"
      by (simp add: g' nth_append)
    with well_formed_entry(1) [OF wf0 n] show ?thesis
      by (simp add: board_at_def g' nth_append)
  qed
  moreover have "length (history (snd g')) = k + 2" using assms(2) by (simp add: g')
  moreover have "history (snd g') = take (k + 1) (history (snd g)) @ [\<lparr>squares = length (fst g)\<rparr>]"
    by (simp add: g')
  moreover have "stepNumber (snd g') = k + 1" by (simp add: g')
  ultimately show ?thesis using fresh by simp
qed

theorem handleClick_after_jump_truncates_witness:
  "reachable three_moves
     \<and> length (history (snd three_moves)) = 4
     \<and> handleClick (jumpTo three_moves 1) 4 =
         Inr (fst three_moves @ [[X_mark, Null, Null, Null, O_mark, Null, Null, Null, Null]],
              \<lparr>history = [\<lparr>squares = 0\<rparr>, \<lparr>squares = 1\<rparr>, \<lparr>squares = 4\<rparr>],
               stepNumber = 2, xIsNext = True\<rparr>)
     \<and> length (history (snd (fst three_moves @ [[X_mark, Null, Null, Null, O_mark, Null, Null, Null, Null]],
              \<lparr>history = [\<lparr>squares = 0\<rparr>, \<lparr>squares = 1\<rparr>, \<lparr>squares = 4\<rparr>],
               stepNumber = 2, xIsNext = True\<rparr>))) = 3"
proof -
  let ?g' = "(fst three_moves @ [[X_mark, Null, Null, Null, O_mark, Null, Null, Null, Null]],
              \<lparr>history = [\<lparr>squares = 0\<rparr>, \<lparr>squares = 1\<rparr>, \<lparr>squares = 4\<rparr>],
               stepNumber = 2, xIsNext = True\<rparr>)"
  have l: "1 + 1 < length (history (snd three_moves))" by (simp add: three_moves_def)
  have h: "handleClick (jumpTo three_moves 1) 4 = Inr ?g'"
    by (simp add: handleClick_def jumpTo_def three_moves_def deref_def Let_def
        calculateWinner_def lines_def js_get_def js_set_def)
  have n: "snd ?g' \<noteq> snd (jumpTo three_moves 1)" by (simp add: three_moves_def jumpTo_def)
  from handleClick_after_jump_truncates [OF reachable_three_moves l h n]
  have "length (history (snd ?g')) = 1 + 2" by blast
  then have "length (history (snd ?g')) = 3" by simp
  moreover have "length (history (snd three_moves)) = 4" by (simp add: three_moves_def)
  ultimately show ?thesis using h reachable_three_moves by blast
qed

text \<open>
  C6. In every state reachable from the initial state by clicks and by jumps to an index of
  the history, the stored flag \<^verbatim>\<open>xIsNext\<close> is true exactly when the step pointer is even.
\<close>

theorem xIsNext_iff_even_step:
  assumes "reachable g"
  shows "xIsNext (snd g) \<longleftrightarrow> even (stepNumber (snd g))"
  using reachable_well_formed [OF assms] by (simp add: well_formed_def)

theorem xIsNext_iff_even_step_witness:
  "reachable (jumpTo won_game 3)
     \<and> \<not> xIsNext (snd (jumpTo won_game 3))
     \<and> odd (stepNumber (snd (jumpTo won_game 3)))
     \<and> reachable (jumpTo won_game 2)
     \<and> xIsNext (snd (jumpTo won_game 2))
     \<and> even (stepNumber (snd (jumpTo won_game 2)))"
proof -
  have r3: "reachable (jumpTo won_game 3)"
    by (rule reachable.jump [OF reachable_won_game]) (simp add: won_game_def)
  have r2: "reachable (jumpTo won_game 2)"
    by (rule reachable.jump [OF reachable_won_game]) (simp add: won_game_def)
  have s3: "odd (stepNumber (snd (jumpTo won_game 3)))" by (simp add: jumpTo_def)
  have s2: "even (stepNumber (snd (jumpTo won_game 2)))" by (simp add: jumpTo_def)
  from xIsNext_iff_even_step [OF r3] s3 have "\<not> xIsNext (snd (jumpTo won_game 3))" by simp
  moreover from xIsNext_iff_even_step [OF r2] s2 have "xIsNext (snd (jumpTo won_game 2))" by simp
  ultimately show ?thesis using r3 r2 s3 s2 by blast
qed

text \<open>
  C7. An accepted click on cell \<open>i\<close> appends an entry whose array is a new one, allocated by
  this call at an address no earlier entry holds. The cell was empty; the new array is the
  board at the step pointer before the click with cell \<open>i\<close> alone changed, to X when that
  pointer is even and to O when it is odd. Every array that was in the store before the
  click is unchanged, so every entry stored before reads the board it read before.
\<close>

theorem handleClick_appends_fresh_clone:
  assumes "reachable g" and "i < 9" and "handleClick g i = Inr g'" and "snd g' \<noteq> snd g"
  shows "squares (last (history (snd g'))) = length (fst g)
     \<and> (\<forall>e\<in>set (history (snd g)). squares e < length (fst g))
     \<and> length (fst g') = length (fst g) + 1
     \<and> current_board g ! i = Null
     \<and> fst g' ! squares (last (history (snd g')))
         = (current_board g)[i := (if even (stepNumber (snd g)) then X_mark else O_mark)]
     \<and> (\<forall>a<length (fst g). fst g' ! a = fst g ! a)
     \<and> (\<forall>k<length (history (snd g)). fst g' ! squares (history (snd g) ! k) = board_at g k)"
proof -
  from assms(1) have wf: "well_formed g" by (rule reachable_well_formed)
  let ?v = "if even (stepNumber (snd g)) then X_mark else O_mark"
  note g' = handleClick_accepted [OF wf assms(3,4)]
  have b: "is_board (current_board g)" by (rule well_formed_current(3) [OF wf])
  then have len: "i < length (current_board g)" using assms(2) by (simp add: is_board_def)
  from handleClick_changed(2) [OF wf assms(3,4)] have empty: "current_board g ! i = Null"
    using assms(2) by (simp add: truthy_cell [OF b])
  have new: "fst g' ! squares (last (history (snd g'))) = (current_board g)[i := ?v]"
    using len by (simp add: g' js_set_def)
  have old: "fst g' ! a = fst g ! a" if "a < length (fst g)" for a
    using that by (simp add: g' nth_append)
  have "fst g' ! squares (history (snd g) ! k) = board_at g k"
    if "k < length (history (snd g))" for k
    using old [OF well_formed_entry(1) [OF wf that]] by (simp add: board_at_def)
  moreover have "squares (last (history (snd g'))) = length (fst g)"
    by (simp add: g')
  moreover have "length (fst g') = length (fst g) + 1" by (simp add: g')
  ultimately show ?thesis using entries_allocated [OF wf] empty new old by blast
qed

theorem handleClick_appends_fresh_clone_witness:
  "reachable one_move
     \<and> handleClick one_move 4 =
         Inr (fst one_move @ [[X_mark, Null, Null, Null, O_mark, Null, Null, Null, Null]],
              \<lparr>history = [\<lparr>squares = 0\<rparr>, \<lparr>squares = 1\<rparr>, \<lparr>squares = 2\<rparr>],
               stepNumber = 2, xIsNext = True\<rparr>)
     \<and> current_board one_move = [X_mark, Null, Null, Null, Null, Null, Null, Null, Null]
     \<and> (fst one_move @ [[X_mark, Null, Null, Null, O_mark, Null, Null, Null, Null]]) ! 2
         = (current_board one_move)[4 := O_mark]"
proof -
  let ?g' = "(fst one_move @ [[X_mark, Null, Null, Null, O_mark, Null, Null, Null, Null]],
              \<lparr>history = [\<lparr>squares = 0\<rparr>, \<lparr>squares = 1\<rparr>, \<lparr>squares = 2\<rparr>],
               stepNumber = 2, xIsNext = True\<rparr>)"
  have h: "handleClick one_move 4 = Inr ?g'"
    by (simp add: handleClick_def one_move_def deref_def Let_def
        calculateWinner_def lines_def js_get_def js_set_def)
  have n: "snd ?g' \<noteq> snd one_move" by (simp add: one_move_def)
  have s: "odd (stepNumber (snd one_move))" by (simp add: one_move_def)
  have c: "current_board one_move = [X_mark, Null, Null, Null, Null, Null, Null, Null, Null]"
    by (simp add: current_board_def board_at_def one_move_def)
  have i: "(4::nat) < 9" by simp
  from handleClick_appends_fresh_clone [OF reachable_one_move i h n] s
  have "(fst one_move @ [[X_mark, Null, Null, Null, O_mark, Null, Null, Null, Null]]) ! 2
      = (current_board one_move)[4 := O_mark]" by simp
  with h c reachable_one_move show ?thesis by blast
qed

text \<open>
  C8. \<^verbatim>\<open>jumpTo(k)\<close> sets the step pointer to \<open>k\<close> and the turn flag to "X next" exactly when
  \<open>k\<close> is even; the history, the store and so the board of every entry are unchanged. This
  holds for every state and every \<open>k\<close>, in particular for an index of the history.
\<close>

theorem jumpTo_sets_pointer_only:
  "stepNumber (snd (jumpTo g k)) = k
     \<and> xIsNext (snd (jumpTo g k)) = even k
     \<and> history (snd (jumpTo g k)) = history (snd g)
     \<and> fst (jumpTo g k) = fst g
     \<and> map (board_at (jumpTo g k)) [0 ..< length (history (snd g))]
         = map (board_at g) [0 ..< length (history (snd g))]"
  by (simp add: jumpTo_def board_at_def even_iff_mod_2_eq_zero)

text \<open>
  C9. The move list has one item per history entry, in order. The label of item 0 is
  \<^verbatim>\<open>Go to game start\<close> and the label of item \<open>i > 0\<close> is \<^verbatim>\<open>Go to move # \<close> followed by \<open>i\<close> in
  decimal (a capital G, and a space between the \<^verbatim>\<open>#\<close> and the number); the button of item \<open>i\<close>
  calls \<^verbatim>\<open>jumpTo(i)\<close>. \<^verbatim>\<open>render\<close> returns in every reachable state.
\<close>

theorem move_list_labels:
  "(reachable g \<longrightarrow> (\<exists>v. render g = Inr v))
     \<and> (\<forall>v. render g = Inr v \<longrightarrow>
           length (moves v) = length (history (snd g))
         \<and> (\<forall>i<length (history (snd g)).
               key (moves v ! i) = i
             \<and> desc (moves v ! i) =
                 (if i = 0 then ''Go to game start'' else ''Go to move # '' @ show_nat i)
             \<and> onClick (moves v ! i) = (\<lambda>g0. jumpTo g0 i)))"
  using render_returns [OF reachable_well_formed, of g] render_moves [of g]
  by (simp add: move_entry_def)

theorem move_list_labels_witness:
  "reachable won_game
     \<and> (\<exists>v. render won_game = Inr v
           \<and> length (moves v) = 6
           \<and> desc (moves v ! 0) = ''Go to game start''
           \<and> desc (moves v ! 5) = ''Go to move # 5''
           \<and> onClick (moves v ! 5) won_game = jumpTo won_game 5)"
proof -
  from move_list_labels [of won_game] reachable_won_game
  obtain v where v: "render won_game = Inr v" by blast
  have n: "length (history (snd won_game)) = 6" by (simp add: won_game_def)
  from move_list_labels [of won_game] v
  have l: "length (moves v) = length (history (snd won_game))"
    and d: "\<forall>i<length (history (snd won_game)).
               desc (moves v ! i) =
                 (if i = 0 then ''Go to game start'' else ''Go to move # '' @ show_nat i)
             \<and> onClick (moves v ! i) = (\<lambda>g0. jumpTo g0 i)"
    by blast+
  from d n have "desc (moves v ! 0) = ''Go to game start''" by simp
  moreover from d n have "desc (moves v ! 5) = ''Go to move # '' @ show_nat 5" by simp
  then have "desc (moves v ! 5) = ''Go to move # 5''" by (simp add: show_nat.simps digit_def)
  moreover from d n have "onClick (moves v ! 5) won_game = jumpTo won_game 5" by simp
  ultimately show ?thesis using v l n reachable_won_game by auto
qed

text \<open>
  The labels are not the lower-case texts \<^verbatim>\<open>go to game start\<close> and \<^verbatim>\<open>go to move #1\<close>: after
  one move the list reads \<^verbatim>\<open>Go to game start\<close>, \<^verbatim>\<open>Go to move # 1\<close>.
\<close>

theorem move_list_labels_lowercase_false:
  "map desc (moves (projr (render one_move))) \<noteq> [''go to game start'', ''go to move #1'']"
  by (simp add: render_def one_move_def deref_def Let_def move_entry_def)

text \<open>
  C10. The guard of \<^verbatim>\<open>handleClick\<close> looks at the board at the step pointer and at no other
  entry. In a reachable state whose board at the step pointer has no winner, a click on an
  empty cell is accepted: the history is cut after the pointer, one entry is appended and
  the pointer moves to it. Nothing is asked of the entries beyond the pointer, which may
  hold a won board. So after a win, a jump to an earlier step whose board has no winner
  makes clicks on its empty cells effective again.
\<close>

theorem handleClick_looks_at_current_board_only:
  assumes "reachable g" and "i < 9"
  shows "(calculateWinner (current_board g) = Null \<and> current_board g ! i = Null \<longrightarrow>
          (\<exists>g'. handleClick g i = Inr g'
             \<and> history (snd g') = take (stepNumber (snd g) + 1) (history (snd g))
                                     @ [\<lparr>squares = length (fst g)\<rparr>]
             \<and> stepNumber (snd g') = stepNumber (snd g) + 1
             \<and> current_board g' =
                 (current_board g)[i := (if even (stepNumber (snd g)) then X_mark else O_mark)]))
     \<and> (\<forall>k<length (history (snd g)).
          calculateWinner (board_at g k) = Null \<and> board_at g k ! i = Null \<longrightarrow>
          (\<exists>g'. handleClick (jumpTo g k) i = Inr g'
             \<and> history (snd g') = take (k + 1) (history (snd g)) @ [\<lparr>squares = length (fst g)\<rparr>]
             \<and> stepNumber (snd g') = k + 1
             \<and> current_board g' =
                 (board_at g k)[i := (if even k then X_mark else O_mark)]))"
proof -
  have applied: "\<exists>g'. handleClick g0 i = Inr g'
             \<and> history (snd g') = take (stepNumber (snd g0) + 1) (history (snd g0))
                                     @ [\<lparr>squares = length (fst g0)\<rparr>]
             \<and> stepNumber (snd g') = stepNumber (snd g0) + 1
             \<and> current_board g' =
                 (current_board g0)[i := (if even (stepNumber (snd g0)) then X_mark else O_mark)]"
    if wf: "well_formed g0" and win: "calculateWinner (current_board g0) = Null"
      and cell: "current_board g0 ! i = Null" for g0
  proof -
    have b: "is_board (current_board g0)" by (rule well_formed_current(3) [OF wf])
    then have len: "i < length (current_board g0)" using assms(2) by (simp add: is_board_def)
    from win have w: "\<not> truthy (calculateWinner (current_board g0))" by simp
    from cell have c: "\<not> truthy (js_get (current_board g0) i)"
      by (simp add: truthy_cell [OF b])
    note eq = handleClick_applied [OF wf w c]
    show ?thesis
      using len well_formed_current(1) [OF wf]
      by (simp add: eq current_board_def [of "(_, _)"] board_at_def js_set_def nth_append)
  qed
  from assms(1) have wf: "well_formed g" by (rule reachable_well_formed)
  have "\<exists>g'. handleClick (jumpTo g k) i = Inr g'
             \<and> history (snd g') = take (k + 1) (history (snd g)) @ [\<lparr>squares = length (fst g)\<rparr>]
             \<and> stepNumber (snd g') = k + 1
             \<and> current_board g' = (board_at g k)[i := (if even k then X_mark else O_mark)]"
    if k: "k < length (history (snd g))" and win: "calculateWinner (board_at g k) = Null"
      and cell: "board_at g k ! i = Null" for k
  proof -
    have j: "fst (jumpTo g k) = fst g" "history (snd (jumpTo g k)) = history (snd g)"
      "stepNumber (snd (jumpTo g k)) = k" "current_board (jumpTo g k) = board_at g k"
      by (simp_all add: jumpTo_def current_board_def board_at_def)
    from applied [OF well_formed_jumpTo [OF wf k], unfolded j, OF win cell]
    show ?thesis .
  qed
  with applied [OF wf] show ?thesis by blast
qed

theorem handleClick_looks_at_current_board_only_witness:
  "reachable won_game
     \<and> calculateWinner (board_at won_game 5) = X_mark
     \<and> calculateWinner (board_at won_game 3) = Null
     \<and> board_at won_game 3 ! 8 = Null
     \<and> (\<exists>g'. handleClick (jumpTo won_game 3) 8 = Inr g' \<and> stepNumber (snd g') = 4
           \<and> current_board g' = (board_at won_game 3)[8 := O_mark])
     \<and> handleClick (jumpTo won_game 3) 8 =
         Inr (fst won_game @ [[X_mark, O_mark, Null, X_mark, Null, Null, Null, Null, O_mark]],
              \<lparr>history = [\<lparr>squares = 0\<rparr>, \<lparr>squares = 1\<rparr>, \<lparr>squares = 2\<rparr>, \<lparr>squares = 3\<rparr>,
                          \<lparr>squares = 6\<rparr>],
               stepNumber = 4, xIsNext = True\<rparr>)"
proof -
  have w5: "calculateWinner (board_at won_game 5) = X_mark"
    by (simp add: board_at_def won_game_def calculateWinner_def lines_def js_get_def)
  have w3: "calculateWinner (board_at won_game 3) = Null"
    by (simp add: board_at_def won_game_def calculateWinner_def lines_def js_get_def)
  have c: "board_at won_game 3 ! 8 = Null"
    by (simp add: board_at_def won_game_def)
  have k: "3 < length (history (snd won_game))" by (simp add: won_game_def)
  have "(8::nat) < 9" by simp
  from handleClick_looks_at_current_board_only [OF reachable_won_game this] k w3 c
  have "\<exists>g'. handleClick (jumpTo won_game 3) 8 = Inr g' \<and> stepNumber (snd g') = 3 + 1
           \<and> current_board g' = (board_at won_game 3)[8 := (if even (3::nat) then X_mark else O_mark)]"
    by blast
  then have e: "\<exists>g'. handleClick (jumpTo won_game 3) 8 = Inr g' \<and> stepNumber (snd g') = 4
           \<and> current_board g' = (board_at won_game 3)[8 := O_mark]"
    by simp
  have h: "handleClick (jumpTo won_game 3) 8 =
         Inr (fst won_game @ [[X_mark, O_mark, Null, X_mark, Null, Null, Null, Null, O_mark]],
              \<lparr>history = [\<lparr>squares = 0\<rparr>, \<lparr>squares = 1\<rparr>, \<lparr>squares = 2\<rparr>, \<lparr>squares = 3\<rparr>,
                          \<lparr>squares = 6\<rparr>],
               stepNumber = 4, xIsNext = True\<rparr>)"
    by (simp add: handleClick_def jumpTo_def won_game_def deref_def Let_def
        calculateWinner_def lines_def js_get_def js_set_def)
  from w5 w3 c e h reachable_won_game show ?thesis by blast
qed

end
